theory Spec2Isabelle
  imports Main
begin

section \<open>Game configuration (main.py, lines 7-30)\<close>

definition SCREEN_WIDTH :: int where
  "SCREEN_WIDTH = 600"

definition SCREEN_HEIGHT :: int where
  "SCREEN_HEIGHT = 400"

definition GRID_SIZE :: int where
  "GRID_SIZE = 20"

definition COLUMNS :: int where
  "COLUMNS = SCREEN_WIDTH div GRID_SIZE"

definition ROWS :: int where
  "ROWS = SCREEN_HEIGHT div GRID_SIZE"

text \<open>A grid position and a direction vector are both a pair of Python integers.\<close>

type_synonym cell = "int \<times> int"

definition UP :: cell where
  "UP = (0, - 1)"

definition DOWN :: cell where
  "DOWN = (0, 1)"

definition LEFT :: cell where
  "LEFT = (- 1, 0)"

definition RIGHT :: cell where
  "RIGHT = (1, 0)"

section \<open>Exceptions as values\<close>

text \<open>
  The only exception the game logic can raise is the \<open>IndexError\<close> of \<open>self.body[0]\<close>
  on an empty body. A computation that may raise returns \<open>error + 'a\<close>.
\<close>

datatype error = IndexError

definition bind_res :: "error + 'a \<Rightarrow> ('a \<Rightarrow> error + 'b) \<Rightarrow> error + 'b" where
  "bind_res m f = (case m of Inl e \<Rightarrow> Inl e | Inr x \<Rightarrow> f x)"

section \<open>class Snake (main.py, lines 33-78)\<close>

record Snake =
  body :: "cell list"
  direction :: cell
  pending_growth :: int
  next_direction :: cell

text \<open>\<open>Snake.__init__\<close>: a two-segment body, head first, facing RIGHT.\<close>

definition Snake_init :: "cell \<Rightarrow> Snake" where
  "Snake_init start_pos =
     \<lparr> body = [start_pos, (fst start_pos - 1, snd start_pos)],
       direction = RIGHT,
       pending_growth = 0,
       next_direction = RIGHT \<rparr>"

text \<open>The property \<open>head\<close> is \<open>self.body[0]\<close>, which raises on an empty list.\<close>

definition head :: "Snake \<Rightarrow> error + cell" where
  "head s = (case body s of [] \<Rightarrow> Inl IndexError | c # _ \<Rightarrow> Inr c)"

definition is_opposite :: "cell \<Rightarrow> cell \<Rightarrow> bool" where
  "is_opposite a b \<longleftrightarrow> fst a = - fst b \<and> snd a = - snd b"

definition set_direction :: "Snake \<Rightarrow> cell \<Rightarrow> Snake" where
  "set_direction s new_dir =
     (if \<not> is_opposite new_dir (direction s) then s\<lparr>next_direction := new_dir\<rparr> else s)"

text \<open>
  \<open>move\<close>: the buffered direction is committed first, then the head is read (the
  statement that can raise), the new head is inserted at index 0, and the tail is
  popped unless growth is pending. After the insert the list is not empty, so
  \<open>pop()\<close> cannot raise and removes the last element.
\<close>

definition move :: "Snake \<Rightarrow> error + Snake" where
  "move s =
     (let s1 = s\<lparr>direction := next_direction s\<rparr> in
      bind_res (head s1) (\<lambda>h.
        let new_head = (fst h + fst (direction s1), snd h + snd (direction s1));
            s2 = s1\<lparr>body := new_head # body s1\<rparr>
        in if pending_growth s2 > 0
           then Inr (s2\<lparr>pending_growth := pending_growth s2 - 1\<rparr>)
           else Inr (s2\<lparr>body := butlast (body s2)\<rparr>)))"

definition grow :: "Snake \<Rightarrow> int \<Rightarrow> Snake" where
  "grow s n = s\<lparr>pending_growth := pending_growth s + max 1 n\<rparr>"

definition hits_wall :: "Snake \<Rightarrow> error + bool" where
  "hits_wall s =
     bind_res (head s) (\<lambda>h.
       Inr (fst h < 0 \<or> fst h \<ge> COLUMNS \<or> snd h < 0 \<or> snd h \<ge> ROWS))"

text \<open>\<open>self.body[1:]\<close> is the list without its first element (empty for an empty list).\<close>

definition hits_self :: "Snake \<Rightarrow> error + bool" where
  "hits_self s = bind_res (head s) (\<lambda>h. Inr (h \<in> set (drop 1 (body s))))"

definition occupies :: "Snake \<Rightarrow> cell set" where
  "occupies s = set (body s)"

section \<open>class Food (main.py, lines 81-99)\<close>

record Food =
  pos :: cell

text \<open>
  \<open>all_cells\<close> is the list comprehension over \<open>range(COLUMNS)\<close> (outer) and
  \<open>range(ROWS)\<close> (inner).
\<close>

definition all_cells :: "cell list" where
  "all_cells = concat (map (\<lambda>x. map (\<lambda>y. (x, y)) [0..ROWS - 1]) [0..COLUMNS - 1])"

text \<open>
  \<open>random.choice(free_cells)\<close> returns \<open>free_cells[i]\<close> for an index \<open>i\<close> below the
  length, drawn from the generator. The draw is the argument \<open>r\<close>, reduced below the
  length; every property below is proved for all \<open>r\<close>, and \<open>random_free_cell_any\<close>
  shows that every free cell is the result for some \<open>r\<close>. The call is guarded by
  \<open>if not free_cells\<close>, so the index is always in range.
\<close>

definition random_free_cell :: "nat \<Rightarrow> cell set \<Rightarrow> cell" where
  "random_free_cell r occupied =
     (let free_cells = filter (\<lambda>c. c \<notin> occupied) all_cells in
      if free_cells = [] then (0, 0)
      else free_cells ! (r mod length free_cells))"

definition Food_init :: "nat \<Rightarrow> cell set \<Rightarrow> Food" where
  "Food_init r snake_cells = \<lparr> pos = random_free_cell r snake_cells \<rparr>"

definition respawn :: "Food \<Rightarrow> nat \<Rightarrow> cell set \<Rightarrow> Food" where
  "respawn f r snake_cells = f\<lparr>pos := random_free_cell r snake_cells\<rparr>"

section \<open>game_loop (main.py, lines 123-201)\<close>

text \<open>
  The state of the loop is the local variables \<open>snake\<close>, \<open>food\<close>, \<open>score\<close>,
  \<open>game_over\<close> and \<open>running\<close>. Drawing reads the state and changes none of it.
\<close>

record game =
  snake :: Snake
  food :: Food
  score :: int
  game_over :: bool
  running :: bool

definition start_new_game :: "nat \<Rightarrow> Snake \<times> Food \<times> int" where
  "start_new_game r =
     (let start = (COLUMNS div 4, ROWS div 2);
          snake0 = Snake_init start;
          food0 = Food_init r (occupies snake0)
      in (snake0, food0, 0))"

text \<open>The state when the \<open>while running\<close> loop is entered.\<close>

definition initial_game :: "nat \<Rightarrow> game" where
  "initial_game r =
     (case start_new_game r of (snake0, food0, score0) \<Rightarrow>
        \<lparr> snake = snake0, food = food0, score = score0,
          game_over = False, running = True \<rparr>)"

text \<open>The events and keys the loop distinguishes; every other one is ignored.\<close>

datatype key = K_ESCAPE | K_UP | K_w | K_DOWN | K_s | K_LEFT | K_a | K_RIGHT | K_d
  | K_RETURN | K_r | K_other

datatype event = QUIT | KEYDOWN key | OTHER_EVENT

text \<open>
  One iteration of \<open>for event in pygame.event.get()\<close>. A restart draws the new food
  position from the generator (\<open>r\<close>).
\<close>

definition handle_event :: "nat \<Rightarrow> game \<Rightarrow> event \<Rightarrow> game" where
  "handle_event r g e =
     (case e of
        QUIT \<Rightarrow> g\<lparr>running := False\<rparr>
      | KEYDOWN k \<Rightarrow>
          (let g1 = (if k = K_ESCAPE then g\<lparr>running := False\<rparr> else g) in
           if \<not> game_over g1 then
             (if k = K_UP \<or> k = K_w then g1\<lparr>snake := set_direction (snake g1) UP\<rparr>
              else if k = K_DOWN \<or> k = K_s then g1\<lparr>snake := set_direction (snake g1) DOWN\<rparr>
              else if k = K_LEFT \<or> k = K_a then g1\<lparr>snake := set_direction (snake g1) LEFT\<rparr>
              else if k = K_RIGHT \<or> k = K_d then g1\<lparr>snake := set_direction (snake g1) RIGHT\<rparr>
              else g1)
           else
             (if k = K_RETURN \<or> k = K_r then
                (case start_new_game r of (snake0, food0, score0) \<Rightarrow>
                   g1\<lparr>snake := snake0, food := food0, score := score0, game_over := False\<rparr>)
              else g1))
      | OTHER_EVENT \<Rightarrow> g)"

text \<open>
  The update block of one iteration (lines 162-174): \<open>move\<close>, the collision check
  (\<open>or\<close> evaluates \<open>hits_self\<close> only when \<open>hits_wall\<close> is false), then the food
  check, which is a separate \<open>if\<close> and not an \<open>else\<close> branch of the collision check.
\<close>

definition update :: "nat \<Rightarrow> game \<Rightarrow> error + game" where
  "update r g =
     (if \<not> game_over g then
        bind_res (move (snake g)) (\<lambda>s1.
        bind_res (hits_wall s1) (\<lambda>hw.
        bind_res (if hw then Inr True else hits_self s1) (\<lambda>collided.
        let g1 = (if collided then g\<lparr>snake := s1, game_over := True\<rparr> else g\<lparr>snake := s1\<rparr>) in
        bind_res (head s1) (\<lambda>h.
          if h = pos (food g1) then
            (let s2 = grow s1 1 in
             Inr (g1\<lparr>snake := s2, score := score g1 + 1,
                     food := respawn (food g1) r (occupies s2)\<rparr>))
          else Inr g1))))
      else Inr g)"

text \<open>
  One iteration of the \<open>while running\<close> loop: the pending events, then the update.
  \<open>r1\<close> is the draw of a restart among the events (there is at most one, since only
  the update sets \<open>game_over\<close>), \<open>r2\<close> the draw of the respawn.
\<close>

definition frame :: "nat \<Rightarrow> nat \<Rightarrow> event list \<Rightarrow> game \<Rightarrow> error + game" where
  "frame r1 r2 es g = update r2 (foldl (handle_event r1) g es)"

text \<open>
  The loop over a list of iterations' inputs; it stops when \<open>running\<close> is false at
  the loop test, or when an iteration raises.
\<close>

fun game_loop :: "game \<Rightarrow> (nat \<times> nat \<times> event list) list \<Rightarrow> error + game" where
  "game_loop g [] = Inr g"
| "game_loop g ((r1, r2, es) # rest) =
     (if running g then bind_res (frame r1 r2 es g) (\<lambda>g'. game_loop g' rest)
      else Inr g)"

text \<open>
  The states the loop can be in: the initial state, and the state after any event
  or any update of a state it can be in.
\<close>

inductive reachable :: "game \<Rightarrow> bool" where
  reachable_init: "reachable (initial_game r)"
| reachable_event: "reachable g \<Longrightarrow> reachable (handle_event r g e)"
| reachable_update: "reachable g \<Longrightarrow> update r g = Inr g' \<Longrightarrow> reachable g'"

text \<open>Consecutive calls of \<open>move\<close>, each preceded by a list of \<open>set_direction\<close> calls.\<close>

definition set_directions :: "Snake \<Rightarrow> cell list \<Rightarrow> Snake" where
  "set_directions s ds = foldl set_direction s ds"

fun moves :: "Snake \<Rightarrow> cell list list \<Rightarrow> error + Snake" where
  "moves s [] = Inr s"
| "moves s (ds # dss) = bind_res (move (set_directions s ds)) (\<lambda>s'. moves s' dss)"

text \<open>The cells of the grid: those for which \<open>hits_wall\<close> is false.\<close>

definition in_grid :: "cell \<Rightarrow> bool" where
  "in_grid c \<longleftrightarrow> 0 \<le> fst c \<and> fst c < COLUMNS \<and> 0 \<le> snd c \<and> snd c < ROWS"

definition opposite :: "cell \<Rightarrow> cell" where
  "opposite d = (- fst d, - snd d)"

text \<open>
  The board is full when \<open>_random_free_cell\<close> finds no free cell for the snake
  (\<open>if not free_cells\<close>).
\<close>

definition board_full :: "Snake \<Rightarrow> bool" where
  "board_full s \<longleftrightarrow> filter (\<lambda>c. c \<notin> occupies s) all_cells = []"

text \<open>
  The invariant of the loop: the body has at least two segments, the growth counter
  is not negative, the food is a cell of the grid, and the food lies under the snake
  only when the board is full, in which case the game is over or growth is pending.
\<close>

definition game_inv :: "game \<Rightarrow> bool" where
  "game_inv g \<longleftrightarrow>
     2 \<le> length (body (snake g)) \<and>
     0 \<le> pending_growth (snake g) \<and>
     in_grid (pos (food g)) \<and>
     (pos (food g) \<in> set (body (snake g)) \<longrightarrow>
        board_full (snake g) \<and> (game_over g \<or> 0 < pending_growth (snake g)))"

section \<open>A game that fills the board\<close>

text \<open>
  The states and inputs of one particular game, used to show which states the loop
  can reach. A snake path is a body without repeated cells, inside the grid, in which
  consecutive cells are neighbours.
\<close>

fun adjacent :: "cell list \<Rightarrow> bool" where
  "adjacent (a # b # rest) \<longleftrightarrow>
     (fst a - fst b, snd a - snd b) \<in> set [UP, DOWN, LEFT, RIGHT] \<and> adjacent (b # rest)"
| "adjacent _ \<longleftrightarrow> True"

definition snake_path :: "cell list \<Rightarrow> bool" where
  "snake_path b \<longleftrightarrow> distinct b \<and> list_all in_grid b \<and> adjacent b"

text \<open>The direction in which a body with head \<open>h\<close> and neck \<open>n\<close> last moved.\<close>

definition heading :: "cell list \<Rightarrow> cell" where
  "heading b = (case b of h # n # _ \<Rightarrow> (fst h - fst n, snd h - snd n) | _ \<Rightarrow> RIGHT)"

text \<open>
  The state right after the snake has eaten: body \<open>b\<close>, one segment of growth
  pending, nothing buffered but the current heading, the new food at \<open>f\<close>, and one
  point for every segment beyond the first.
\<close>

definition eat_game :: "cell \<Rightarrow> cell list \<Rightarrow> game" where
  "eat_game f b =
     \<lparr> snake = \<lparr> body = b, direction = heading b, pending_growth = 1,
                 next_direction = heading b \<rparr>,
       food = \<lparr> pos = f \<rparr>,
       score = int (length b) - 1,
       game_over = False,
       running = True \<rparr>"

text \<open>
  A body that winds through the whole grid except \<open>(1, 0)\<close>: head at \<open>(2, 0)\<close>, along
  row 0 to the right, back and forth through rows 1 to \<open>ROWS - 1\<close> on the columns
  from 1, then up column 0 to the tail at \<open>(0, 0)\<close>. With \<open>(1, 0)\<close> in front it
  covers the grid.
\<close>

definition winding_body :: "cell list" where
  "winding_body =
     map (\<lambda>x. (x, 0)) [2..COLUMNS - 1] @
     concat (map (\<lambda>y. map (\<lambda>x. (x, y))
                         (if odd y then rev [1..COLUMNS - 1] else [1..COLUMNS - 1]))
                 [1..ROWS - 1]) @
     map (\<lambda>y. (0, y)) (rev [3..ROWS - 1]) @
     [(0, 2), (0, 1), (0, 0)]"

definition full_body :: "cell list" where
  "full_body = (1, 0) # winding_body"

text \<open>
  The first eighteen iterations of that game: up ten cells, left seven cells to
  \<open>(0, 0)\<close>, then down onto the first food.
\<close>

definition opening_frames :: "(nat \<times> nat \<times> event list) list" where
  "opening_frames =
     (0, 0, [KEYDOWN K_UP]) # replicate 9 (0, 0, []) @
     (0, 0, [KEYDOWN K_LEFT]) # replicate 6 (0, 0, []) @
     [(0, 0, [KEYDOWN K_DOWN])]"

text \<open>
  The state with one free cell left, which holds the food; the state after the
  snake has eaten it; and the state after the iteration that follows.
\<close>

definition last_food_game :: game where
  "last_food_game = eat_game (1, 0) winding_body"

definition full_board_game :: game where
  "full_board_game = eat_game (0, 0) full_body"

definition crashed_game :: game where
  "crashed_game =
     \<lparr> snake = \<lparr> body = (0, 0) # full_body, direction = LEFT, pending_growth = 1,
                 next_direction = LEFT \<rparr>,
       food = \<lparr> pos = (0, 0) \<rparr>,
       score = 600,
       game_over = True,
       running = True \<rparr>"

text \<open>A state in which the snake runs into the right wall on the next move.\<close>

definition wall_game :: game where
  "wall_game =
     \<lparr> snake = \<lparr> body = [(29, 10), (28, 10)], direction = RIGHT, pending_growth = 0,
                 next_direction = RIGHT \<rparr>,
       food = \<lparr> pos = (3, 3) \<rparr>,
       score = 0,
       game_over = False,
       running = True \<rparr>"

section \<open>Basic facts about the operations\<close>

lemma bind_res_Inr [simp]: "bind_res (Inr x) f = f x"
  by (simp add: bind_res_def)

lemma bind_res_Inl [simp]: "bind_res (Inl e) f = Inl e"
  by (simp add: bind_res_def)

lemma COLUMNS_eq: "COLUMNS = 30"
  by (simp add: COLUMNS_def SCREEN_WIDTH_def GRID_SIZE_def)

lemma ROWS_eq: "ROWS = 20"
  by (simp add: ROWS_def SCREEN_HEIGHT_def GRID_SIZE_def)

lemma head_Cons [simp]: "body s = c # cs \<Longrightarrow> head s = Inr c"
  by (simp add: head_def)

lemma head_Nil [simp]: "body s = [] \<Longrightarrow> head s = Inl IndexError"
  by (simp add: head_def)

lemma head_Inr_iff: "head s = Inr c \<longleftrightarrow> (\<exists>cs. body s = c # cs)"
  by (auto simp: head_def split: list.splits)

text \<open>The result of \<open>move\<close> on a non-empty body, field by field.\<close>

lemma move_Cons:
  "body s = h # t \<Longrightarrow>
   move s =
     Inr \<lparr> body = (fst h + fst (next_direction s), snd h + snd (next_direction s)) #
                  (if pending_growth s > 0 then h # t else butlast (h # t)),
           direction = next_direction s,
           pending_growth =
             (if pending_growth s > 0 then pending_growth s - 1 else pending_growth s),
           next_direction = next_direction s \<rparr>"
  by (simp add: move_def Let_def)

text \<open>On an empty body \<open>move\<close> raises: \<open>self.head\<close> is read before the insert.\<close>

lemma move_Nil: "body s = [] \<Longrightarrow> move s = Inl IndexError"
  by (simp add: move_def Let_def)

lemma set_direction_fields [simp]:
  "body (set_direction s d) = body s"
  "direction (set_direction s d) = direction s"
  "pending_growth (set_direction s d) = pending_growth s"
  by (simp_all add: set_direction_def)

lemma set_directions_fields [simp]:
  "body (set_directions s ds) = body s"
  "direction (set_directions s ds) = direction s"
  "pending_growth (set_directions s ds) = pending_growth s"
  unfolding set_directions_def
  by (induction ds arbitrary: s) simp_all

lemma grow_fields [simp]:
  "body (grow s n) = body s"
  "direction (grow s n) = direction s"
  "next_direction (grow s n) = next_direction s"
  "pending_growth (grow s n) = pending_growth s + max 1 n"
  by (simp_all add: grow_def)

lemma move_length:
  assumes "body s \<noteq> []"
  obtains s' where "move s = Inr s'"
    and "length (body s') =
           (if pending_growth s > 0 then length (body s) + 1 else length (body s))"
    and "pending_growth s' =
           (if pending_growth s > 0 then pending_growth s - 1 else pending_growth s)"
proof -
  from assms obtain h t where ht: "body s = h # t" by (cases "body s") auto
  show ?thesis
    by (rule that [OF move_Cons [OF ht]]) (simp_all add: ht)
qed

lemma is_opposite_opposite: "is_opposite (opposite d) d"
  by (simp add: is_opposite_def opposite_def)

lemma is_opposite_iff: "is_opposite a b \<longleftrightarrow> a = opposite b"
  by (cases a) (auto simp: is_opposite_def opposite_def)

section \<open>Snake.move\<close>

text \<open>
  Claim C1. For a snake whose head can be read (a non-empty body, which every Snake
  object has: see \<open>move_Nil\<close> for the other case), \<open>move\<close> returns; the committed
  direction becomes the buffered one; the new head is the old head plus that
  direction and is at index 0 of the body; if \<open>pending_growth > 0\<close> the counter
  is decremented, the old body follows the new head unchanged and the length grows
  by exactly 1; otherwise the counter is unchanged, the old body without its last
  element follows the new head and the length is unchanged.
\<close>

theorem C1_move:
  assumes "head s = Inr h"
  shows "\<exists>s'. move s = Inr s' \<and>
           direction s' = next_direction s \<and>
           next_direction s' = next_direction s \<and>
           head s' = Inr (fst h + fst (next_direction s), snd h + snd (next_direction s)) \<and>
           (if pending_growth s > 0
            then pending_growth s' = pending_growth s - 1 \<and>
                 drop 1 (body s') = body s \<and>
                 length (body s') = length (body s) + 1
            else pending_growth s' = pending_growth s \<and>
                 drop 1 (body s') = butlast (body s) \<and>
                 length (body s') = length (body s))"
proof -
  from assms obtain t where ht: "body s = h # t"
    by (auto simp: head_Inr_iff)
  show ?thesis
    by (simp add: move_Cons [OF ht] ht)
qed

theorem C1_move_witness:
  "head (Snake_init (7, 10)) = Inr (7, 10) \<and>
   (\<exists>s'. move (Snake_init (7, 10)) = Inr s' \<and> direction s' = RIGHT \<and>
         head s' = Inr (8, 10) \<and> drop 1 (body s') = [(7, 10)] \<and> length (body s') = 2) \<and>
   head (grow (Snake_init (7, 10)) 1) = Inr (7, 10) \<and>
   (\<exists>s'. move (grow (Snake_init (7, 10)) 1) = Inr s' \<and> pending_growth s' = 0 \<and>
         head s' = Inr (8, 10) \<and> drop 1 (body s') = [(7, 10), (6, 10)] \<and>
         length (body s') = 3)"
proof -
  have h1: "head (Snake_init (7, 10)) = Inr (7, 10)"
    by (simp add: Snake_init_def)
  have h2: "head (grow (Snake_init (7, 10)) 1) = Inr (7, 10)"
    by (simp add: Snake_init_def)
  have n: "next_direction (Snake_init (7, 10)) = RIGHT"
    "next_direction (grow (Snake_init (7, 10)) 1) = RIGHT"
    "pending_growth (Snake_init (7, 10)) = 0"
    "pending_growth (grow (Snake_init (7, 10)) 1) = 1"
    "body (Snake_init (7, 10)) = [(7, 10), (6, 10)]"
    "body (grow (Snake_init (7, 10)) 1) = [(7, 10), (6, 10)]"
    by (simp_all add: Snake_init_def)
  from C1_move [OF h1] C1_move [OF h2] h1 h2 show ?thesis
    unfolding n by (auto simp: RIGHT_def eval_nat_numeral)
qed

section \<open>Snake.set_direction\<close>

lemma set_directions_snoc:
  "set_directions s (ds @ [d]) = set_direction (set_directions s ds) d"
  by (simp add: set_directions_def)

lemma set_directions_next:
  "next_direction (set_directions s ds) =
     (case filter (\<lambda>d. \<not> is_opposite d (direction s)) ds of
        [] \<Rightarrow> next_direction s
      | a # as \<Rightarrow> last (a # as))"
proof (induction ds rule: rev_induct)
  case Nil
  then show ?case by (simp add: set_directions_def)
next
  case (snoc d ds)
  then show ?case
    by (auto simp: set_directions_snoc set_direction_def split: list.splits)
qed

text \<open>
  Claim C4. \<open>set_direction s d\<close> stores \<open>d\<close> in the buffer unless \<open>d\<close> is the opposite
  of the committed direction \<open>direction s\<close> (the buffer is not consulted); a rejected
  call returns the state unchanged and the function has no error result. After any
  list of calls the committed direction is unchanged and the buffer holds the last
  accepted direction (or its old content when none was accepted), which the next
  \<open>move\<close> commits. A call with the opposite of the committed direction is the
  identity, so the next \<open>move\<close> gives the same result with and without it; when
  nothing else is buffered the committed direction after that \<open>move\<close> is the one
  before it.
\<close>

theorem C4_set_direction:
  "(\<not> is_opposite d (direction s) \<longrightarrow> set_direction s d = s\<lparr>next_direction := d\<rparr>) \<and>
   (is_opposite d (direction s) \<longrightarrow> set_direction s d = s) \<and>
   (is_opposite d (direction s) \<longleftrightarrow> d = opposite (direction s)) \<and>
   direction (set_directions s ds) = direction s \<and>
   next_direction (set_directions s ds) =
     (case filter (\<lambda>d. \<not> is_opposite d (direction s)) ds of
        [] \<Rightarrow> next_direction s
      | a # as \<Rightarrow> last (a # as)) \<and>
   (head s = Inr h \<longrightarrow>
      (\<exists>s'. move (set_directions s ds) = Inr s' \<and>
            direction s' = next_direction (set_directions s ds))) \<and>
   move (set_direction s (opposite (direction s))) = move s \<and>
   (head s = Inr h \<and> next_direction s = direction s \<longrightarrow>
      (\<exists>s'. move (set_direction s (opposite (direction s))) = Inr s' \<and>
            direction s' = direction s))"
proof -
  have committed: "\<exists>s'. move (set_directions s ds) = Inr s' \<and>
            direction s' = next_direction (set_directions s ds)" if "head s = Inr h"
  proof -
    from that obtain t where "body (set_directions s ds) = h # t"
      by (auto simp: head_Inr_iff)
    from move_Cons [OF this] show ?thesis by simp
  qed
  have rejected: "set_direction s (opposite (direction s)) = s"
    by (simp add: set_direction_def is_opposite_opposite)
  have same: "\<exists>s'. move (set_direction s (opposite (direction s))) = Inr s' \<and>
            direction s' = direction s" if "head s = Inr h" "next_direction s = direction s"
  proof -
    from that obtain t where "body s = h # t"
      by (auto simp: head_Inr_iff)
    from move_Cons [OF this] that show ?thesis by (simp add: rejected)
  qed
  have a: "\<not> is_opposite d (direction s) \<longrightarrow> set_direction s d = s\<lparr>next_direction := d\<rparr>"
    and b: "is_opposite d (direction s) \<longrightarrow> set_direction s d = s"
    by (simp_all add: set_direction_def)
  from a b committed rejected same show ?thesis
    by (simp add: set_directions_next is_opposite_iff)
qed

theorem C4_set_direction_witness:
  "\<not> is_opposite UP (direction (Snake_init (7, 10))) \<and>
   set_direction (Snake_init (7, 10)) UP = (Snake_init (7, 10))\<lparr>next_direction := UP\<rparr> \<and>
   is_opposite LEFT (direction (Snake_init (7, 10))) \<and>
   set_direction (Snake_init (7, 10)) LEFT = Snake_init (7, 10) \<and>
   next_direction (set_directions (Snake_init (7, 10)) [UP, LEFT, DOWN]) = DOWN \<and>
   head (Snake_init (7, 10)) = Inr (7, 10) \<and>
   (\<exists>s'. move (set_directions (Snake_init (7, 10)) [UP, LEFT, DOWN]) = Inr s' \<and>
         direction s' = DOWN) \<and>
   next_direction (Snake_init (7, 10)) = direction (Snake_init (7, 10)) \<and>
   (\<exists>s'. move (set_direction (Snake_init (7, 10)) LEFT) = Inr s' \<and> direction s' = RIGHT)"
proof -
  let ?s = "Snake_init (7, 10)"
  have d: "direction ?s = RIGHT" "next_direction ?s = RIGHT" "head ?s = Inr (7, 10)"
    by (simp_all add: Snake_init_def)
  have o: "\<not> is_opposite UP RIGHT" "is_opposite LEFT RIGHT" "\<not> is_opposite DOWN RIGHT"
    "opposite RIGHT = LEFT"
    by (simp_all add: is_opposite_def opposite_def UP_def LEFT_def RIGHT_def DOWN_def)
  from C4_set_direction [of UP ?s "[UP, LEFT, DOWN]" "(7, 10)"]
    C4_set_direction [of LEFT ?s "[]" "(7, 10)"]
  show ?thesis
    unfolding d by (auto simp: o)
qed

text \<open>
  Claim C8. Two or more consecutive calls \<open>set_direction d\<close> with the same \<open>d\<close>
  (\<open>Suc n\<close> calls, for any \<open>n\<close>) leave the snake in exactly the state of one call.
\<close>

theorem C8_idempotent:
  "((\<lambda>t. set_direction t d) ^^ Suc n) s = set_direction s d"
proof (induction n)
  case 0
  show ?case by simp
next
  case (Suc n)
  have "set_direction (set_direction s d) d = set_direction s d"
    by (simp add: set_direction_def)
  with Suc show ?case by simp
qed

section \<open>Growth\<close>

lemma moves_growing:
  "body s \<noteq> [] \<Longrightarrow> int (length dss) \<le> pending_growth s \<Longrightarrow>
   \<exists>s'. moves s dss = Inr s' \<and> length (body s') = length (body s) + length dss \<and>
        pending_growth s' = pending_growth s - int (length dss)"
proof (induction dss arbitrary: s)
  case Nil
  then show ?case by simp
next
  case (Cons ds dss)
  let ?t = "set_directions s ds"
  from Cons.prems have ne: "body ?t \<noteq> []" and pg: "0 < pending_growth ?t" by simp_all
  from ne obtain s1 where m: "move ?t = Inr s1"
    and l: "length (body s1) = (if pending_growth ?t > 0 then length (body ?t) + 1 else length (body ?t))"
    and p: "pending_growth s1 = (if pending_growth ?t > 0 then pending_growth ?t - 1 else pending_growth ?t)"
    by (rule move_length)
  from l p pg Cons.prems have "body s1 \<noteq> []" "int (length dss) \<le> pending_growth s1"
    by auto
  from Cons.IH [OF this] obtain s' where "moves s1 dss = Inr s'"
    "length (body s') = length (body s1) + length dss"
    "pending_growth s' = pending_growth s1 - int (length dss)" by blast
  with m l p pg show ?case by simp
qed

lemma moves_append:
  "moves s (dss @ ess) = bind_res (moves s dss) (\<lambda>s'. moves s' ess)"
  by (induction dss arbitrary: s) (simp_all add: bind_res_def split: sum.splits)

text \<open>
  Claim C5. For a snake whose head can be read, \<open>move\<close> returns a snake whose body
  is at least as long. With pending growth \<open>g\<close>, after the first \<open>k \<le> g\<close> calls of
  \<open>move\<close> (each preceded by any calls of \<open>set_direction\<close>) the body is longer by
  exactly \<open>k\<close>, so each of these calls adds one segment; after \<open>g + 1\<close> calls it is
  longer by \<open>g\<close>, so the last call adds none. \<open>grow n\<close> adds \<open>max 1 n\<close> to the
  pending growth and leaves the body as it is.
\<close>

theorem C5_growth:
  assumes "head s = Inr h"
  shows "(\<exists>s'. move s = Inr s' \<and> length (body s) \<le> length (body s')) \<and>
         (pending_growth s = int g \<and> length dss = g \<longrightarrow>
            (\<forall>k\<le>g. \<exists>s'. moves s (take k dss) = Inr s' \<and>
                     length (body s') = length (body s) + k) \<and>
            (\<exists>s'. moves s (dss @ [ds]) = Inr s' \<and>
                     length (body s') = length (body s) + g)) \<and>
         pending_growth (grow s n) = pending_growth s + max 1 n \<and>
         body (grow s n) = body s"
proof -
  from assms have ne: "body s \<noteq> []" by (auto simp: head_Inr_iff)
  have one: "\<exists>s'. move s = Inr s' \<and> length (body s) \<le> length (body s')"
    using move_length [OF ne] by (metis le_add1 order_refl)
  have many: "(\<forall>k\<le>g. \<exists>s'. moves s (take k dss) = Inr s' \<and>
                     length (body s') = length (body s) + k) \<and>
            (\<exists>s'. moves s (dss @ [ds]) = Inr s' \<and>
                     length (body s') = length (body s) + g)"
    if pg: "pending_growth s = int g" and len: "length dss = g"
  proof (intro conjI allI impI)
    fix k assume "k \<le> g"
    with pg len have "int (length (take k dss)) \<le> pending_growth s" by simp
    from moves_growing [OF ne this] \<open>k \<le> g\<close> len
    show "\<exists>s'. moves s (take k dss) = Inr s' \<and> length (body s') = length (body s) + k"
      by (auto simp: min_def)
  next
    from pg len have "int (length dss) \<le> pending_growth s" by simp
    from moves_growing [OF ne this] obtain s1 where s1: "moves s dss = Inr s1"
      "length (body s1) = length (body s) + length dss"
      "pending_growth s1 = pending_growth s - int (length dss)" by blast
    let ?t = "set_directions s1 ds"
    from s1 ne have "body ?t \<noteq> []" by auto
    then obtain s2 where "move ?t = Inr s2"
      "length (body s2) = (if pending_growth ?t > 0 then length (body ?t) + 1 else length (body ?t))"
      by (rule move_length)
    with s1 pg len show "\<exists>s'. moves s (dss @ [ds]) = Inr s' \<and> length (body s') = length (body s) + g"
      by (simp add: moves_append)
  qed
  from one many show ?thesis by simp
qed

theorem C5_growth_witness:
  "head (grow (Snake_init (7, 10)) 2) = Inr (7, 10) \<and>
   pending_growth (grow (Snake_init (7, 10)) 2) = int 2 \<and>
   length [[], [UP]] = (2::nat) \<and>
   (\<exists>s'. moves (grow (Snake_init (7, 10)) 2) [[]] = Inr s' \<and> length (body s') = 2 + 1) \<and>
   (\<exists>s'. moves (grow (Snake_init (7, 10)) 2) [[], [UP]] = Inr s' \<and> length (body s') = 2 + 2) \<and>
   (\<exists>s'. moves (grow (Snake_init (7, 10)) 2) [[], [UP], []] = Inr s' \<and>
         length (body s') = 2 + 2)"
proof -
  let ?s = "grow (Snake_init (7, 10)) 2"
  have h: "head ?s = Inr (7, 10)" by (simp add: Snake_init_def)
  have p: "pending_growth ?s = int 2" by (simp add: Snake_init_def)
  have l: "length (body ?s) = 2" by (simp add: Snake_init_def)
  from C5_growth [OF h, of 2 "[[], [UP]]" "[]" 2] p
  have a: "\<forall>k\<le>2. \<exists>s'. moves ?s (take k [[], [UP]]) = Inr s' \<and> length (body s') = 2 + k"
    and b: "\<exists>s'. moves ?s ([[], [UP]] @ [[]]) = Inr s' \<and> length (body s') = 2 + 2"
    unfolding l by simp_all
  from a have "\<exists>s'. moves ?s (take 1 [[], [UP]]) = Inr s' \<and> length (body s') = 2 + 1"
    by (rule allE [where x = 1]) simp
  moreover from a have "\<exists>s'. moves ?s (take 2 [[], [UP]]) = Inr s' \<and> length (body s') = 2 + 2"
    by (rule allE [where x = 2]) simp
  ultimately show ?thesis using b h p by simp
qed

text \<open>
  Claim C10. \<open>grow\<close> has no error result and no precondition: for every integer
  \<open>n\<close> it adds exactly \<open>max 1 n\<close> to the pending growth and changes nothing else, so
  the counter increases by at least 1, and by exactly 1 for \<open>n \<le> 1\<close> (zero and
  negative \<open>n\<close> included). With a non-negative counter before the call, the next
  \<open>move\<close> therefore makes the body one segment longer.
\<close>

theorem C10_grow_total:
  "grow s n = s\<lparr>pending_growth := pending_growth s + max 1 n\<rparr> \<and>
   pending_growth s + 1 \<le> pending_growth (grow s n) \<and>
   (n \<le> 1 \<longrightarrow> pending_growth (grow s n) = pending_growth s + 1) \<and>
   (head s = Inr h \<and> 0 \<le> pending_growth s \<longrightarrow>
      (\<exists>s'. move (grow s n) = Inr s' \<and> length (body s') = length (body s) + 1))"
proof -
  have "\<exists>s'. move (grow s n) = Inr s' \<and> length (body s') = length (body s) + 1"
    if "head s = Inr h" "0 \<le> pending_growth s"
  proof -
    from that have "body (grow s n) \<noteq> []" "0 < pending_growth (grow s n)"
      by (auto simp: head_Inr_iff)
    with move_length [of "grow s n"] show ?thesis
      by (metis grow_fields(1))
  qed
  then show ?thesis by (simp add: grow_def)
qed

theorem C10_grow_total_witness:
  "(0::int) \<le> 1 \<and> pending_growth (grow (Snake_init (7, 10)) 0) = 1 \<and>
   (- 5::int) \<le> 1 \<and> pending_growth (grow (Snake_init (7, 10)) (- 5)) = 1 \<and>
   head (Snake_init (7, 10)) = Inr (7, 10) \<and> 0 \<le> pending_growth (Snake_init (7, 10)) \<and>
   (\<exists>s'. move (grow (Snake_init (7, 10)) (- 5)) = Inr s' \<and> length (body s') = 2 + 1)"
proof -
  let ?s = "Snake_init (7, 10)"
  have f: "head ?s = Inr (7, 10)" "pending_growth ?s = 0" "length (body ?s) = 2"
    by (simp_all add: Snake_init_def)
  from C10_grow_total [of ?s 0 "(7, 10)"] C10_grow_total [of ?s "- 5" "(7, 10)"]
  show ?thesis
    unfolding f by simp
qed

section \<open>The first moves of a new game\<close>

text \<open>
  Claim C9. A new game starts with the snake built at \<open>(COLUMNS div 4, ROWS div 2)\<close>,
  with a body of length 2 and facing RIGHT; after three calls of \<open>move\<close> with no
  call of \<open>set_direction\<close> or \<open>grow\<close> the body has length 2 and the head is at
  \<open>(COLUMNS div 4 + 3, ROWS div 2)\<close>, whatever the draw of the food.
\<close>

theorem C9_three_moves:
  "snake (initial_game r) = Snake_init (COLUMNS div 4, ROWS div 2) \<and>
   length (body (snake (initial_game r))) = 2 \<and>
   direction (snake (initial_game r)) = RIGHT \<and>
   (\<exists>s'. moves (snake (initial_game r)) [[], [], []] = Inr s' \<and>
         length (body s') = 2 \<and>
         head s' = Inr (COLUMNS div 4 + 3, ROWS div 2))"
  by (simp add: initial_game_def start_new_game_def Snake_init_def set_directions_def move_def Let_def RIGHT_def)

section \<open>Food._random_free_cell and Food.respawn\<close>

lemma set_all_cells: "set all_cells = {c. in_grid c}"
  by (auto simp: all_cells_def in_grid_def)

lemma in_grid_origin: "in_grid (0, 0)"
  by (simp add: in_grid_def COLUMNS_eq ROWS_eq)

lemma random_free_cell_full:
  assumes "\<forall>c. in_grid c \<longrightarrow> c \<in> occupied"
  shows "random_free_cell r occupied = (0, 0)"
proof -
  from assms have "filter (\<lambda>c. c \<notin> occupied) all_cells = []"
    by (simp add: filter_empty_conv set_all_cells)
  then show ?thesis by (simp add: random_free_cell_def)
qed

lemma random_free_cell_free:
  assumes "\<not> (\<forall>c. in_grid c \<longrightarrow> c \<in> occupied)"
  shows "in_grid (random_free_cell r occupied) \<and> random_free_cell r occupied \<notin> occupied"
proof -
  let ?free = "filter (\<lambda>c. c \<notin> occupied) all_cells"
  from assms have ne: "?free \<noteq> []"
    by (simp add: filter_empty_conv set_all_cells)
  then have "?free ! (r mod length ?free) \<in> set ?free"
    by (intro nth_mem) simp
  with ne show ?thesis
    by (simp add: random_free_cell_def Let_def set_all_cells)
qed

lemma random_free_cell_in_grid: "in_grid (random_free_cell r occupied)"
  using random_free_cell_full [of occupied r] random_free_cell_free [of occupied r] in_grid_origin
  by (cases "\<forall>c. in_grid c \<longrightarrow> c \<in> occupied") simp_all

lemma random_free_cell_any:
  assumes "in_grid c" "c \<notin> occupied"
  shows "\<exists>r. random_free_cell r occupied = c"
proof -
  let ?free = "filter (\<lambda>c. c \<notin> occupied) all_cells"
  from assms have "c \<in> set ?free" by (simp add: set_all_cells)
  then obtain i where i: "i < length ?free" "?free ! i = c"
    unfolding in_set_conv_nth by blast
  then have "?free \<noteq> []" by auto
  with i have "random_free_cell i occupied = c"
    by (simp add: random_free_cell_def Let_def)
  then show ?thesis ..
qed

lemma random_free_cell_example: "random_free_cell 1 {(7, 10), (6, 10)} = (0, 1)"
  by code_simp

text \<open>
  Claim C3. When some cell of the grid is not in \<open>occupied\<close>, the position chosen
  by \<open>respawn\<close> is a cell of the grid that is not in \<open>occupied\<close>, for every draw
  of the generator; when every cell of the grid is in \<open>occupied\<close>, the position is
  the fallback \<open>(0, 0)\<close>. The cells of the grid are the elements of \<open>all_cells\<close>,
  the \<open>COLUMNS\<close> by \<open>ROWS\<close> positions.
\<close>

theorem C3_respawn:
  "(\<not> (\<forall>c. in_grid c \<longrightarrow> c \<in> occupied) \<longrightarrow>
      in_grid (pos (respawn f r occupied)) \<and> pos (respawn f r occupied) \<notin> occupied) \<and>
   ((\<forall>c. in_grid c \<longrightarrow> c \<in> occupied) \<longrightarrow> pos (respawn f r occupied) = (0, 0)) \<and>
   (in_grid c \<longleftrightarrow> c \<in> set all_cells)"
  using random_free_cell_free [of occupied r] random_free_cell_full [of occupied r]
  by (simp add: respawn_def set_all_cells)

theorem C3_respawn_witness:
  "in_grid (0, 0) \<and> (0, 0) \<notin> {(7, 10), (6, 10) :: cell} \<and>
   in_grid (pos (respawn \<lparr>pos = (3, 3)\<rparr> 1 {(7, 10), (6, 10)})) \<and>
   pos (respawn \<lparr>pos = (3, 3)\<rparr> 1 {(7, 10), (6, 10)}) \<notin> {(7, 10), (6, 10)} \<and>
   pos (respawn \<lparr>pos = (3, 3)\<rparr> 1 {(7, 10), (6, 10)}) = (0, 1) \<and>
   pos (respawn \<lparr>pos = (3, 3)\<rparr> 1 (set all_cells)) = (0, 0)"
proof -
  have o: "in_grid (0, 0) \<and> (0, 0) \<notin> {(7, 10), (6, 10) :: cell}"
    by (simp add: in_grid_origin)
  then have a: "\<not> (\<forall>c. in_grid c \<longrightarrow> c \<in> {(7, 10), (6, 10)})" by blast
  have b: "\<forall>c. in_grid c \<longrightarrow> c \<in> set all_cells"
    by (simp add: set_all_cells)
  have e: "pos (respawn \<lparr>pos = (3, 3)\<rparr> 1 {(7, 10), (6, 10)}) = (0, 1)"
    using random_free_cell_example by (simp add: respawn_def)
  from C3_respawn [of "{(7, 10), (6, 10)}" "\<lparr>pos = (3, 3)\<rparr>" 1]
    C3_respawn [of "set all_cells" "\<lparr>pos = (3, 3)\<rparr>" 1] a b e o
  show ?thesis by blast
qed

section \<open>The update step of the loop\<close>

lemma hits_wall_Cons: "body s = h # t \<Longrightarrow> hits_wall s = Inr (\<not> in_grid h)"
  by (auto simp: hits_wall_def in_grid_def)

lemma hits_self_Cons: "body s = h # t \<Longrightarrow> hits_self s = Inr (h \<in> set t)"
  by (simp add: hits_self_def)

lemma update_game_over: "game_over g \<Longrightarrow> update r g = Inr g"
  by (simp add: update_def)

lemma update_playing:
  assumes "\<not> game_over g" and "move (snake g) = Inr s1" and "body s1 = h # t"
  shows "update r g =
           Inr (if h = pos (food g)
                then g\<lparr>snake := grow s1 1, score := score g + 1,
                       food := respawn (food g) r (occupies (grow s1 1)),
                       game_over := \<not> in_grid h \<or> h \<in> set t\<rparr>
                else g\<lparr>snake := s1, game_over := \<not> in_grid h \<or> h \<in> set t\<rparr>)"
  using assms
  by (simp add: update_def hits_wall_Cons [OF assms(3)] hits_self_Cons [OF assms(3)] Let_def)

lemma update_raises: "\<not> game_over g \<Longrightarrow> body (snake g) = [] \<Longrightarrow> update r g = Inl IndexError"
  by (simp add: update_def move_Nil)

section \<open>The invariant of the loop\<close>

lemma board_full_iff: "board_full s \<longleftrightarrow> (\<forall>c. in_grid c \<longrightarrow> c \<in> set (body s))"
  by (auto simp: board_full_def occupies_def filter_empty_conv set_all_cells)

lemma Snake_init_not_full: "\<not> board_full (Snake_init p)"
proof
  assume "board_full (Snake_init p)"
  then have "{c. in_grid c} \<subseteq> set (body (Snake_init p))"
    by (auto simp: board_full_iff)
  then have "card {c. in_grid c} \<le> card (set (body (Snake_init p)))"
    by (intro card_mono) simp_all
  moreover have "card (set (body (Snake_init p))) \<le> 2"
    using card_length [of "body (Snake_init p)"] by (simp add: Snake_init_def)
  moreover have "{(0, 0), (0, 1), (0, 2)} \<subseteq> {c. in_grid c}"
    by (simp add: in_grid_def COLUMNS_eq ROWS_eq)
  then have "card {(0, 0), (0, 1), (0, 2) :: cell} \<le> card {c. in_grid c}"
    by (intro card_mono) (simp_all add: set_all_cells [symmetric])
  ultimately show False by simp
qed

lemma respawn_cases:
  "in_grid (random_free_cell r (occupies s)) \<and>
   (random_free_cell r (occupies s) \<in> set (body s) \<longrightarrow> board_full s)"
  using random_free_cell_free [of "occupies s" r] random_free_cell_in_grid [of r "occupies s"]
  by (auto simp: board_full_iff occupies_def)

lemma initial_game_fields:
  "snake (initial_game r) = Snake_init (COLUMNS div 4, ROWS div 2)"
  "pos (food (initial_game r)) = random_free_cell r (occupies (Snake_init (COLUMNS div 4, ROWS div 2)))"
  "score (initial_game r) = 0"
  "game_over (initial_game r) = False"
  "running (initial_game r) = True"
  by (simp_all add: initial_game_def start_new_game_def Food_init_def Let_def)

lemma game_inv_new:
  assumes "snake g = Snake_init p" and "pos (food g) = random_free_cell r (occupies (Snake_init p))"
  shows "game_inv g"
  using respawn_cases [of r "Snake_init p"] Snake_init_not_full [of p] assms
  by (auto simp: game_inv_def) (simp_all add: Snake_init_def)

lemma game_inv_initial: "game_inv (initial_game r)"
  by (rule game_inv_new) (simp_all add: initial_game_fields)

lemma game_inv_set_direction:
  "game_inv g \<Longrightarrow> game_inv (g\<lparr>snake := set_direction (snake g) d\<rparr>)"
  by (simp add: game_inv_def board_full_iff)

lemma game_inv_running: "game_inv (g\<lparr>running := b\<rparr>) = game_inv g"
  by (simp add: game_inv_def)

lemma game_inv_event:
  assumes "game_inv g"
  shows "game_inv (handle_event r g e)"
proof (cases e)
  case QUIT
  with assms show ?thesis by (simp add: handle_event_def game_inv_running)
next
  case OTHER_EVENT
  with assms show ?thesis by (simp add: handle_event_def)
next
  case (KEYDOWN k)
  let ?g1 = "if k = K_ESCAPE then g\<lparr>running := False\<rparr> else g"
  from assms have g1: "game_inv ?g1" by (simp add: game_inv_running)
  show ?thesis
  proof (cases "game_over ?g1")
    case False
    with KEYDOWN g1 game_inv_set_direction [OF g1] show ?thesis
      by (simp add: handle_event_def Let_def)
  next
    case True
    have "game_inv (case start_new_game r of (snake0, food0, score0) \<Rightarrow>
                   ?g1\<lparr>snake := snake0, food := food0, score := score0, game_over := False\<rparr>)"
      by (rule game_inv_new [where r = r and p = "(COLUMNS div 4, ROWS div 2)"])
         (simp_all add: start_new_game_def Food_init_def Let_def)
    with True KEYDOWN g1 show ?thesis
      by (simp add: handle_event_def Let_def)
  qed
qed

lemma game_inv_update:
  assumes inv: "game_inv g"
  shows "\<exists>g'. update r g = Inr g' \<and> game_inv g'"
proof (cases "game_over g")
  case True
  with inv show ?thesis by (simp add: update_game_over)
next
  case False
  let ?s = "snake g"
  from inv have len: "2 \<le> length (body ?s)" and pg: "0 \<le> pending_growth ?s"
    and fg: "in_grid (pos (food g))"
    and under: "pos (food g) \<in> set (body ?s) \<Longrightarrow> board_full ?s \<and> 0 < pending_growth ?s"
    using False by (auto simp: game_inv_def)
  from len obtain h0 t0 where B: "body ?s = h0 # t0" by (cases "body ?s") auto
  define nh where "nh = (fst h0 + fst (next_direction ?s), snd h0 + snd (next_direction ?s))"
  define T where "T = (if pending_growth ?s > 0 then h0 # t0 else butlast (h0 # t0))"
  define s1 where "s1 = \<lparr> body = nh # T, direction = next_direction ?s,
           pending_growth = (if pending_growth ?s > 0 then pending_growth ?s - 1 else pending_growth ?s),
           next_direction = next_direction ?s \<rparr>"
  have mv: "move ?s = Inr s1"
    unfolding s1_def nh_def T_def by (rule move_Cons [OF B])
  have B1: "body s1 = nh # T" by (simp add: s1_def)
  have TB: "set T \<subseteq> set (body ?s)"
    unfolding T_def B by (auto dest: in_set_butlastD)
  have len1: "2 \<le> length (body s1)"
    using len by (auto simp: B1 T_def B)
  have pg1: "0 \<le> pending_growth s1"
    using pg by (simp add: s1_def)
  note upd = update_playing [OF False mv B1, of r]
  show ?thesis
  proof (cases "nh = pos (food g)")
    case True
    let ?g' = "g\<lparr>snake := grow s1 1, score := score g + 1,
                 food := respawn (food g) r (occupies (grow s1 1)),
                 game_over := \<not> in_grid nh \<or> nh \<in> set T\<rparr>"
    from respawn_cases [of r "grow s1 1"] len1 pg1 have "game_inv ?g'"
      by (simp add: game_inv_def respawn_def)
    with upd True show ?thesis by simp
  next
    case neq: False
    let ?g' = "g\<lparr>snake := s1, game_over := \<not> in_grid nh \<or> nh \<in> set T\<rparr>"
    have "board_full s1 \<and> (\<not> in_grid nh \<or> nh \<in> set T)" if "pos (food g) \<in> set (body s1)"
    proof -
      from that neq TB have "pos (food g) \<in> set (body ?s)" by (auto simp: B1)
      from under [OF this] have full: "board_full ?s" and "0 < pending_growth ?s" by simp_all
      then have "T = body ?s" by (simp add: T_def B)
      with full show ?thesis
        unfolding board_full_iff B1 by (metis list.set_intros(2))
    qed
    with len1 pg1 fg have "game_inv ?g'"
      by (simp add: game_inv_def)
    with upd neq show ?thesis by simp
  qed
qed

lemma reachable_inv: "reachable g \<Longrightarrow> game_inv g"
proof (induction rule: reachable.induct)
  case (reachable_init r)
  show ?case by (rule game_inv_initial)
next
  case (reachable_event g r e)
  then show ?case by (simp add: game_inv_event)
next
  case (reachable_update g r g')
  with game_inv_update [of g r] show ?case by auto
qed

lemma handle_event_body:
  "2 \<le> length (body (snake g)) \<Longrightarrow> 2 \<le> length (body (snake (handle_event r g e)))"
  by (cases e)
     (auto simp: handle_event_def Let_def start_new_game_def Snake_init_def split: if_splits)

lemma update_body:
  assumes "2 \<le> length (body (snake g))"
  shows "\<exists>g'. update r g = Inr g' \<and> 2 \<le> length (body (snake g'))"
proof (cases "game_over g")
  case True
  with assms show ?thesis by (simp add: update_game_over)
next
  case False
  from assms have "body (snake g) \<noteq> []" by auto
  then obtain s1 where mv: "move (snake g) = Inr s1"
    and l: "length (body s1) =
              (if pending_growth (snake g) > 0 then length (body (snake g)) + 1
               else length (body (snake g)))"
    by (rule move_length)
  from l assms have l1: "2 \<le> length (body s1)" by (simp split: if_splits)
  then obtain h t where B1: "body s1 = h # t" by (cases "body s1") auto
  from update_playing [OF False mv B1, of r] l1 show ?thesis by simp
qed

text \<open>
  Claim C6. The constructor builds a body of two segments. \<open>set_direction\<close>,
  \<open>grow\<close> and \<open>move\<close> keep a body of at least two segments at least that long,
  and \<open>move\<close> returns on such a body; so do the handling of an event and the update
  step of the loop, which returns as well. Hence in every state the loop can be in
  the body has at least two segments.
\<close>

theorem C6_body_length:
  "length (body (Snake_init p)) = 2 \<and>
   (2 \<le> length (body s) \<longrightarrow>
      2 \<le> length (body (set_direction s d)) \<and>
      2 \<le> length (body (grow s n)) \<and>
      (\<exists>s'. move s = Inr s' \<and> 2 \<le> length (body s'))) \<and>
   (2 \<le> length (body (snake g)) \<longrightarrow>
      2 \<le> length (body (snake (handle_event r g e))) \<and>
      (\<exists>g'. update r g = Inr g' \<and> 2 \<le> length (body (snake g')))) \<and>
   (reachable g \<longrightarrow> 2 \<le> length (body (snake g)))"
proof -
  have mv: "\<exists>s'. move s = Inr s' \<and> 2 \<le> length (body s')" if "2 \<le> length (body s)"
  proof -
    from that have "body s \<noteq> []" by auto
    then obtain s' where "move s = Inr s'"
      "length (body s') =
         (if pending_growth s > 0 then length (body s) + 1 else length (body s))"
      by (rule move_length)
    with that show ?thesis by (simp split: if_splits)
  qed
  have "2 \<le> length (body (snake g))" if "reachable g"
    using reachable_inv [OF that] by (simp add: game_inv_def)
  with mv handle_event_body [of g r e] update_body [of g r] show ?thesis
    by (simp add: Snake_init_def)
qed

theorem C6_body_length_witness:
  "2 \<le> length (body (Snake_init (7, 10))) \<and>
   2 \<le> length (body (set_direction (Snake_init (7, 10)) UP)) \<and>
   2 \<le> length (body (grow (Snake_init (7, 10)) 1)) \<and>
   (\<exists>s'. move (Snake_init (7, 10)) = Inr s' \<and> 2 \<le> length (body s')) \<and>
   2 \<le> length (body (snake (initial_game 0))) \<and>
   2 \<le> length (body (snake (handle_event 0 (initial_game 0) (KEYDOWN K_UP)))) \<and>
   (\<exists>g'. update 0 (initial_game 0) = Inr g' \<and> 2 \<le> length (body (snake g'))) \<and>
   reachable (initial_game 0)"
proof -
  have a: "2 \<le> length (body (Snake_init (7, 10)))"
    by (simp add: Snake_init_def)
  have b: "reachable (initial_game 0)"
    by (rule reachable_init)
  have c: "2 \<le> length (body (snake (initial_game 0)))"
    by (simp add: initial_game_fields Snake_init_def)
  from C6_body_length [of "(7, 10)" "Snake_init (7, 10)" UP 1 "initial_game 0" 0 "KEYDOWN K_UP"]
    a b c
  show ?thesis by simp
qed

section \<open>Reaching the full board\<close>

lemma set_if_rev: "set (if b then rev xs else xs) = set xs"
  by simp

lemma mem_winding:
  "c \<in> set winding_body \<longleftrightarrow>
     (snd c = 0 \<and> 2 \<le> fst c \<and> fst c \<le> COLUMNS - 1) \<or>
     (1 \<le> snd c \<and> snd c \<le> ROWS - 1 \<and> 1 \<le> fst c \<and> fst c \<le> COLUMNS - 1) \<or>
     (fst c = 0 \<and> 3 \<le> snd c \<and> snd c \<le> ROWS - 1) \<or>
     c = (0, 2) \<or> c = (0, 1) \<or> c = (0, 0)"
proof -
  obtain x y where c: "c = (x, y)" by (cases c)
  show ?thesis
    unfolding c winding_body_def
    by (simp add: set_if_rev image_iff) blast
qed

lemma full_body_covers: "in_grid c \<Longrightarrow> c \<in> set full_body"
  by (cases c) (auto simp: full_body_def mem_winding in_grid_def)

lemma full_body_in_grid: "c \<in> set full_body \<Longrightarrow> in_grid c"
  by (cases c) (auto simp: full_body_def mem_winding in_grid_def COLUMNS_eq ROWS_eq)

lemma card_grid: "card {c. in_grid c} = 600"
proof -
  have "{c. in_grid c} = {0..29} \<times> {0..19}"
    by (auto simp: in_grid_def COLUMNS_eq ROWS_eq)
  then show ?thesis by simp
qed

lemma length_full_body: "length full_body = 600"
  by code_simp

lemma distinct_full_body: "distinct full_body"
proof -
  have "{c. in_grid c} \<subseteq> set full_body"
    using full_body_covers by blast
  then have "card {c. in_grid c} \<le> card (set full_body)"
    by (intro card_mono) simp_all
  with card_grid card_length [of full_body] length_full_body
  have "card (set full_body) = length full_body" by simp
  then show ?thesis by (rule card_distinct)
qed

lemma adjacent_full_body: "adjacent full_body"
  by code_simp

lemma snake_path_full_body: "snake_path full_body"
  using full_body_in_grid
  by (simp add: snake_path_def distinct_full_body adjacent_full_body list_all_iff)

lemma adjacent_tl: "adjacent (a # b) \<Longrightarrow> adjacent b"
  by (cases b) simp_all

lemma adjacent_append: "adjacent (xs @ ys) \<Longrightarrow> adjacent ys"
  by (induction xs) (auto dest: adjacent_tl)

lemma snake_path_append: "snake_path (xs @ ys) \<Longrightarrow> snake_path ys"
  by (auto simp: snake_path_def dest: adjacent_append)

lemma direction_key:
  assumes "d \<in> set [UP, DOWN, LEFT, RIGHT]" and "\<not> game_over g"
  shows "\<exists>k. handle_event r g (KEYDOWN k) = g\<lparr>snake := set_direction (snake g) d\<rparr>"
proof -
  from assms(1) consider "d = UP" | "d = DOWN" | "d = LEFT" | "d = RIGHT" by auto
  then show ?thesis
  proof cases
    case 1
    with assms(2) have "handle_event r g (KEYDOWN K_UP) = g\<lparr>snake := set_direction (snake g) d\<rparr>"
      by (simp add: handle_event_def)
    then show ?thesis ..
  next
    case 2
    with assms(2) have "handle_event r g (KEYDOWN K_DOWN) = g\<lparr>snake := set_direction (snake g) d\<rparr>"
      by (simp add: handle_event_def)
    then show ?thesis ..
  next
    case 3
    with assms(2) have "handle_event r g (KEYDOWN K_LEFT) = g\<lparr>snake := set_direction (snake g) d\<rparr>"
      by (simp add: handle_event_def)
    then show ?thesis ..
  next
    case 4
    with assms(2) have "handle_event r g (KEYDOWN K_RIGHT) = g\<lparr>snake := set_direction (snake g) d\<rparr>"
      by (simp add: handle_event_def)
    then show ?thesis ..
  qed
qed

text \<open>
  One iteration of the loop in which the snake eats: from the state after a meal, with
  the food at a free neighbour \<open>f\<close> of the head, the key for the direction towards
  \<open>f\<close> and the update lead to the state after the next meal, with the food
  wherever the generator puts it.
\<close>

lemma eat_step_draw:
  assumes path: "snake_path (f # h # n # rest)"
    and reach: "reachable (eat_game f (h # n # rest))"
  shows "reachable (eat_game (random_free_cell r (set (f # h # n # rest))) (f # h # n # rest))"
proof -
  let ?b = "h # n # rest"
  let ?g = "eat_game f ?b"
  define d where "d = (fst f - fst h, snd f - snd h)"
  from path have dir: "d \<in> set [UP, DOWN, LEFT, RIGHT]"
    and fresh: "f \<notin> set ?b" and grid: "in_grid f"
    by (simp_all add: snake_path_def d_def)
  have playing: "\<not> game_over ?g" by (simp add: eat_game_def)
  from direction_key [OF dir playing, of 0] obtain k
    where k: "handle_event 0 ?g (KEYDOWN k) = ?g\<lparr>snake := set_direction (snake ?g) d\<rparr>" ..
  from fresh have "f \<noteq> n" by auto
  then have "\<not> is_opposite d (heading ?b)"
    by (cases f, cases n) (auto simp: is_opposite_def heading_def d_def)
  then have sd: "set_direction (snake ?g) d = (snake ?g)\<lparr>next_direction := d\<rparr>"
    by (simp add: set_direction_def eat_game_def)
  let ?g1 = "?g\<lparr>snake := (snake ?g)\<lparr>next_direction := d\<rparr>\<rparr>"
  from reachable_event [OF reach, of 0 "KEYDOWN k"] k sd have r1: "reachable ?g1" by simp
  let ?s1 = "\<lparr> body = f # ?b, direction = d, pending_growth = 0, next_direction = d \<rparr>"
  have "body (snake ?g1) = h # n # rest" by (simp add: eat_game_def)
  from move_Cons [OF this] have mv: "move (snake ?g1) = Inr ?s1"
    by (simp add: eat_game_def d_def)
  have p1: "\<not> game_over ?g1" by (simp add: eat_game_def)
  have b1: "body ?s1 = f # ?b" by simp
  from update_playing [OF p1 mv b1, of r] fresh grid
  have "update r ?g1 =
          Inr (eat_game (random_free_cell r (set (f # h # n # rest))) (f # h # n # rest))"
    by (simp add: eat_game_def grow_def respawn_def occupies_def heading_def d_def)
  from reachable_update [OF r1 this] show ?thesis .
qed

lemma eat_step:
  assumes "snake_path (f' # f # h # n # rest)" and "reachable (eat_game f (h # n # rest))"
  shows "reachable (eat_game f' (f # h # n # rest))"
proof -
  from assms(1) have "in_grid f'" "f' \<notin> set (f # h # n # rest)"
    by (simp_all add: snake_path_def)
  then obtain r where "random_free_cell r (set (f # h # n # rest)) = f'"
    using random_free_cell_any by blast
  moreover from assms(1) have "snake_path (f # h # n # rest)"
    using snake_path_append [of "[f']"] by simp
  ultimately show ?thesis
    using eat_step_draw [OF _ assms(2), of r] by simp
qed

lemma eat_path:
  "snake_path (ys @ f # b) \<Longrightarrow> 2 \<le> length b \<Longrightarrow> reachable (eat_game f b) \<Longrightarrow>
   ys \<noteq> [] \<Longrightarrow> reachable (eat_game (hd ys) (tl ys @ f # b))"
proof (induction ys arbitrary: f b rule: rev_induct)
  case Nil
  then show ?case by simp
next
  case (snoc f' zs)
  from snoc.prems(2) obtain h n rest where b: "b = h # n # rest"
    by (cases b; cases "tl b") auto
  from snoc.prems(1) have sp: "snake_path (f' # f # h # n # rest)"
    using snake_path_append [of zs "f' # f # b"] by (simp add: b)
  from snoc.prems(3) have "reachable (eat_game f (h # n # rest))"
    by (simp add: b)
  from eat_step [OF sp this] have step: "reachable (eat_game f' (f # b))"
    by (simp add: b)
  show ?case
  proof (cases "zs = []")
    case True
    with step show ?thesis by simp
  next
    case False
    from snoc.prems(1) have "snake_path (zs @ f' # f # b)" by simp
    from snoc.IH [OF this _ step False] snoc.prems(2) False show ?thesis by simp
  qed
qed

lemma reachable_events: "reachable g \<Longrightarrow> reachable (foldl (handle_event r) g es)"
  by (induction es arbitrary: g) (simp_all add: reachable_event)

lemma reachable_game_loop:
  "reachable g \<Longrightarrow> game_loop g fs = Inr g' \<Longrightarrow> reachable g'"
proof (induction g fs rule: game_loop.induct)
  case (1 g)
  then show ?case by simp
next
  case (2 g r1 r2 es rest)
  show ?case
  proof (cases "running g")
    case False
    with 2 show ?thesis by simp
  next
    case True
    with "2.prems"(2) obtain g1 where f: "frame r1 r2 es g = Inr g1"
      and l: "game_loop g1 rest = Inr g'"
      by (cases "frame r1 r2 es g") simp_all
    from f reachable_events [OF "2.prems"(1), of r1 es] have "reachable g1"
      unfolding frame_def by (rule reachable_update [rotated])
    from "2.IH" [OF True this l] show ?thesis .
  qed
qed

lemma opening_run:
  "game_loop (initial_game 1) opening_frames = Inr (eat_game (0, 2) [(0, 1), (0, 0)])"
  by code_simp

lemma reachable_first_food: "reachable (eat_game (0, 2) [(0, 1), (0, 0)])"
  using reachable_init opening_run by (rule reachable_game_loop)

lemma reachable_last_food_game: "reachable last_food_game"
proof -
  define W where "W =
     map (\<lambda>x. (x, 0)) [2..COLUMNS - 1] @
     concat (map (\<lambda>y. map (\<lambda>x. (x, y))
                         (if odd y then rev [1..COLUMNS - 1] else [1..COLUMNS - 1]))
                 [1..ROWS - 1]) @
     map (\<lambda>y. (0, y)) (rev [3..ROWS - 1])"
  have w: "winding_body = W @ (0, 2) # [(0, 1), (0, 0)]"
    by (simp add: winding_body_def W_def)
  then have "full_body = ((1, 0) # W) @ (0, 2) # [(0, 1), (0, 0)]"
    by (simp add: full_body_def)
  with snake_path_full_body
  have "snake_path (((1, 0) # W) @ (0, 2) # [(0, 1), (0, 0)])" by simp
  from eat_path [OF this _ reachable_first_food] w show ?thesis
    by (simp add: last_food_game_def)
qed

lemma eat_step_full:
  assumes "snake_path (f # b)" and "2 \<le> length b" and "reachable (eat_game f b)"
    and "\<forall>c. in_grid c \<longrightarrow> c \<in> set (f # b)"
  shows "reachable (eat_game (0, 0) (f # b))"
proof -
  from assms(2) obtain h n rest where b: "b = h # n # rest"
    by (cases b; cases "tl b") auto
  from eat_step_draw [of f h n rest 0] assms(1,3)
  have "reachable (eat_game (random_free_cell 0 (set (f # b))) (f # b))"
    by (simp add: b)
  with random_free_cell_full [OF assms(4)] show ?thesis by simp
qed

lemma reachable_full_board_game: "reachable full_board_game"
proof -
  have "snake_path ((1, 0) # winding_body)"
    using snake_path_full_body by (simp add: full_body_def)
  moreover have "2 \<le> length winding_body"
    using length_full_body by (simp add: full_body_def)
  moreover have "reachable (eat_game (1, 0) winding_body)"
    using reachable_last_food_game by (simp add: last_food_game_def)
  moreover have "\<forall>c. in_grid c \<longrightarrow> c \<in> set ((1, 0) # winding_body)"
    using full_body_covers by (simp add: full_body_def)
  ultimately have "reachable (eat_game (0, 0) ((1, 0) # winding_body))"
    by (rule eat_step_full)
  then show ?thesis by (simp add: full_board_game_def full_body_def)
qed

lemma winding_body_start: "\<exists>rest. winding_body = (2, 0) # (3, 0) # rest"
  by (simp add: winding_body_def COLUMNS_eq)

lemma origin_in_winding: "(0, 0) \<in> set winding_body"
  by (simp add: mem_winding)

lemma move_full_board_game:
  "move (snake full_board_game) =
     Inr \<lparr> body = (0, 0) # full_body, direction = LEFT, pending_growth = 0,
           next_direction = LEFT \<rparr>"
proof -
  from winding_body_start obtain rest where w: "winding_body = (2, 0) # (3, 0) # rest" ..
  have hd: "heading ((1, 0) # winding_body) = (- 1, 0)"
    by (simp add: heading_def w)
  have "body (snake full_board_game) = (1, 0) # winding_body"
    by (simp add: full_board_game_def eat_game_def full_body_def)
  from move_Cons [OF this] show ?thesis
    by (simp add: full_board_game_def eat_game_def hd full_body_def LEFT_def)
qed

lemma update_full_board_game: "update r full_board_game = Inr crashed_game"
proof -
  from winding_body_start obtain rest where w: "winding_body = (2, 0) # (3, 0) # rest" ..
  let ?g = full_board_game
  let ?s1 = "\<lparr> body = (0, 0) # full_body, direction = LEFT, pending_growth = 0,
               next_direction = LEFT \<rparr>"
  have hd: "heading ((1, 0) # winding_body) = (- 1, 0)"
    by (simp add: heading_def w)
  have "body (snake ?g) = (1, 0) # winding_body"
    by (simp add: full_board_game_def eat_game_def full_body_def)
  from move_Cons [OF this] have mv: "move (snake ?g) = Inr ?s1"
    by (simp add: full_board_game_def eat_game_def hd full_body_def LEFT_def)
  have p: "\<not> game_over ?g" by (simp add: full_board_game_def eat_game_def)
  have b1: "body ?s1 = (0, 0) # full_body" by simp
  have full: "\<forall>c. in_grid c \<longrightarrow> c \<in> set ((0, 0) # full_body)"
    using full_body_covers by simp
  have o: "(0, 0) \<in> set full_body"
    using origin_in_winding by (simp add: full_body_def)
  from update_playing [OF p mv b1, of r] o random_free_cell_full [OF full, of r] length_full_body
  show ?thesis
    by (simp add: full_board_game_def eat_game_def crashed_game_def grow_def respawn_def
          occupies_def)
qed


section \<open>The food and the snake's cells\<close>




section \<open>A collision and the food check in one update\<close>

text \<open>
  Claim C2 as stated fails in the state \<open>full_board_game\<close>, which the loop can reach:
  the game is not over, the move runs the head into the tail at \<open>(0, 0)\<close>, where the
  fallback has put the food; the update sets \<open>game_over\<close> and also increments the
  score, calls \<open>grow\<close> (the growth counter is 1 where the move left 0) and respawns.
\<close>

theorem C2_counterexample:
  "reachable full_board_game \<and>
   \<not> game_over full_board_game \<and>
   score full_board_game = 599 \<and>
   move (snake full_board_game) =
     Inr \<lparr> body = (0, 0) # full_body, direction = LEFT, pending_growth = 0,
           next_direction = LEFT \<rparr> \<and>
   hits_self \<lparr> body = (0, 0) # full_body, direction = LEFT, pending_growth = 0,
               next_direction = LEFT \<rparr> = Inr True \<and>
   update 0 full_board_game = Inr crashed_game \<and>
   game_over crashed_game \<and>
   score crashed_game = 600 \<and>
   pending_growth (snake crashed_game) = 1 \<and>
   pos (food crashed_game) = (0, 0)"
proof -
  have "hits_self \<lparr> body = (0, 0) # full_body, direction = LEFT, pending_growth = 0,
                   next_direction = LEFT \<rparr> = Inr True"
    using origin_in_winding by (simp add: hits_self_def full_body_def)
  with reachable_full_board_game update_full_board_game [of 0] length_full_body
    move_full_board_game
  show ?thesis
    by (simp add: full_board_game_def eat_game_def crashed_game_def)
qed

text \<open>
  Claim C2 (as amended). When the game is not over and the snake, after \<open>move\<close>,
  hits a wall or itself, the update returns with \<open>game_over\<close> set, and what else
  it does is decided by the food check alone, which runs whether or not there was a
  collision. If the new head is not the food cell, \<open>grow\<close> is not called, the score
  is not incremented and the food is not respawned: the result is the old state with
  the moved snake and \<open>game_over\<close> set. If the new head is the food cell, the same
  update also calls \<open>grow 1\<close>, adds 1 to the score and respawns the food against
  the cells of the moved snake. The new head differs from the food cell whenever the
  food is a cell of the grid that is not under the snake before the move.
\<close>

theorem C2_collision_tick:
  assumes "\<not> game_over g" and "move (snake g) = Inr s1"
    and "hits_wall s1 = Inr True \<or> hits_self s1 = Inr True"
  shows "\<exists>h. head s1 = Inr h \<and>
           (h \<noteq> pos (food g) \<longrightarrow>
              update r g = Inr (g\<lparr>snake := s1, game_over := True\<rparr>)) \<and>
           (h = pos (food g) \<longrightarrow>
              update r g =
                Inr (g\<lparr>snake := grow s1 1, score := score g + 1,
                       food := respawn (food g) r (occupies (grow s1 1)),
                       game_over := True\<rparr>)) \<and>
           (in_grid (pos (food g)) \<and> pos (food g) \<notin> set (body (snake g)) \<longrightarrow>
              h \<noteq> pos (food g))"
proof -
  from assms(2) have "body (snake g) \<noteq> []"
    by (auto simp: move_Nil)
  then obtain h0 t0 where B: "body (snake g) = h0 # t0" by (cases "body (snake g)") auto
  define nh where
    "nh = (fst h0 + fst (next_direction (snake g)), snd h0 + snd (next_direction (snake g)))"
  define T where "T = (if pending_growth (snake g) > 0 then h0 # t0 else butlast (h0 # t0))"
  from move_Cons [OF B] assms(2) have B1: "body s1 = nh # T"
    by (auto simp: nh_def T_def)
  have TB: "set T \<subseteq> set (body (snake g))"
    unfolding T_def B by (auto dest: in_set_butlastD)
  from assms(3) have col: "\<not> in_grid nh \<or> nh \<in> set T"
    by (auto simp: hits_wall_Cons [OF B1] hits_self_Cons [OF B1])
  have off: "nh \<noteq> pos (food g)"
    if "in_grid (pos (food g))" "pos (food g) \<notin> set (body (snake g))"
    using that col TB by auto
  have hd: "head s1 = Inr nh" by (simp add: B1)
  from update_playing [OF assms(1,2) B1, of r] col off hd show ?thesis
    by auto
qed

theorem C2_collision_tick_witness:
  "\<not> game_over wall_game \<and>
   move (snake wall_game) =
     Inr \<lparr> body = [(30, 10), (29, 10)], direction = RIGHT, pending_growth = 0,
           next_direction = RIGHT \<rparr> \<and>
   hits_wall \<lparr> body = [(30, 10), (29, 10)], direction = RIGHT, pending_growth = 0,
               next_direction = RIGHT \<rparr> = Inr True \<and>
   in_grid (pos (food wall_game)) \<and>
   pos (food wall_game) \<notin> set (body (snake wall_game)) \<and>
   (30, 10) \<noteq> pos (food wall_game) \<and>
   update 0 wall_game =
     Inr (wall_game\<lparr>snake := \<lparr> body = [(30, 10), (29, 10)], direction = RIGHT,
                               pending_growth = 0, next_direction = RIGHT \<rparr>,
                    game_over := True\<rparr>) \<and>
   \<not> game_over full_board_game \<and>
   move (snake full_board_game) =
     Inr \<lparr> body = (0, 0) # full_body, direction = LEFT, pending_growth = 0,
           next_direction = LEFT \<rparr> \<and>
   hits_self \<lparr> body = (0, 0) # full_body, direction = LEFT, pending_growth = 0,
               next_direction = LEFT \<rparr> = Inr True \<and>
   (0, 0) = pos (food full_board_game) \<and>
   update 0 full_board_game =
     Inr (full_board_game
            \<lparr>snake := \<lparr> body = (0, 0) # full_body, direction = LEFT, pending_growth = 1,
                        next_direction = LEFT \<rparr>,
             score := score full_board_game + 1,
             food := respawn (food full_board_game) 0 (set ((0, 0) # full_body)),
             game_over := True\<rparr>)"
proof -
  let ?s1 = "\<lparr> body = [(30, 10), (29, 10)], direction = RIGHT, pending_growth = 0,
               next_direction = RIGHT \<rparr>"
  let ?s2 = "\<lparr> body = (0, 0) # full_body, direction = LEFT, pending_growth = 0,
               next_direction = LEFT \<rparr>"
  have a: "\<not> game_over wall_game" by (simp add: wall_game_def)
  have b: "move (snake wall_game) = Inr ?s1"
    by (simp add: wall_game_def move_def Let_def RIGHT_def)
  have c: "hits_wall ?s1 = Inr True"
    by (simp add: hits_wall_def COLUMNS_eq ROWS_eq)
  have d: "in_grid (pos (food wall_game))" "pos (food wall_game) \<notin> set (body (snake wall_game))"
    "(30, 10) \<noteq> pos (food wall_game)"
    by (simp_all add: wall_game_def in_grid_def COLUMNS_eq ROWS_eq)
  have a2: "\<not> game_over full_board_game"
    by (simp add: full_board_game_def eat_game_def)
  note b2 = move_full_board_game
  have c2: "hits_self ?s2 = Inr True"
    using origin_in_winding by (simp add: hits_self_def full_body_def)
  have d2: "(0, 0) = pos (food full_board_game)"
    by (simp add: full_board_game_def eat_game_def)
  have g2: "grow ?s2 1 = \<lparr> body = (0, 0) # full_body, direction = LEFT, pending_growth = 1,
               next_direction = LEFT \<rparr>"
    by (simp add: grow_def)
  from C2_collision_tick [OF a b disjI1 [OF c], of 0] d
  have w1: "update 0 wall_game = Inr (wall_game\<lparr>snake := ?s1, game_over := True\<rparr>)"
    by simp
  from C2_collision_tick [OF a2 b2 disjI2 [OF c2], of 0] d2
  have w2: "update 0 full_board_game =
     Inr (full_board_game
            \<lparr>snake := grow ?s2 1, score := score full_board_game + 1,
             food := respawn (food full_board_game) 0 (occupies (grow ?s2 1)),
             game_over := True\<rparr>)"
    by simp
  from a b c d a2 b2 c2 d2 w1 w2 show ?thesis
    unfolding g2 by (simp add: occupies_def)
qed

end
